theory Spec2Isabelle
  imports Main "HOL-Library.Sublist"
begin

section \<open>Strings\<close>

text \<open>
  A Python \<open>str\<close> is a sequence of Unicode code points and \<open>len\<close> counts code points, so a
  string is modelled as a list of code points (natural numbers), not as a list of bytes.
\<close>

type_synonym codepoint = nat
type_synonym pystr = "codepoint list"

text \<open>
  The whitespace class shared by \<open>str.strip()\<close> and by \<open>\s\<close> of \<open>re\<close> on \<open>str\<close> patterns:
  U+0009..U+000D, U+001C..U+0020, U+0085, U+00A0, U+1680, U+2000..U+200A, U+2028, U+2029,
  U+202F, U+205F, U+3000.
\<close>

definition isspace :: "codepoint \<Rightarrow> bool" where
  "isspace c \<longleftrightarrow>
     (9 \<le> c \<and> c \<le> 13) \<or> (28 \<le> c \<and> c \<le> 32) \<or> c = 133 \<or> c = 160 \<or> c = 5760 \<or>
     (8192 \<le> c \<and> c \<le> 8202) \<or> c = 8232 \<or> c = 8233 \<or> c = 8239 \<or> c = 8287 \<or> c = 12288"

text \<open>\<open>s.strip()\<close>: leading and trailing whitespace removed.\<close>

definition strip :: "pystr \<Rightarrow> pystr" where
  "strip s = rev (dropWhile isspace (rev (dropWhile isspace s)))"

text \<open>\<open>s[i:]\<close> for an integer \<open>i\<close>: a negative index counts from the end and is clamped at 0.\<close>

definition slice_from :: "pystr \<Rightarrow> int \<Rightarrow> pystr" where
  "slice_from s i = (if i < 0 then drop (nat (int (length s) + i)) s else drop (nat i) s)"

text \<open>\<open>s.find(sub)\<close>: the index of the first occurrence of \<open>sub\<close> in \<open>s\<close>, or \<open>-1\<close>.\<close>

fun str_find :: "pystr \<Rightarrow> pystr \<Rightarrow> int" where
  "str_find [] sub = (if sub = [] then 0 else - 1)"
| "str_find (c # cs) sub =
     (if prefix sub (c # cs) then 0
      else (let r = str_find cs sub in if r = - 1 then - 1 else r + 1))"

text \<open>
  \<open>text.split('\n\n')\<close>: the pieces between the non-overlapping occurrences of two line
  feeds, found from left to right; \<open>acc\<close> is the piece read so far.
\<close>

fun split_nn :: "pystr \<Rightarrow> pystr \<Rightarrow> pystr list" where
  "split_nn acc (a # b # cs) =
     (if a = 10 \<and> b = 10 then acc # split_nn [] cs else split_nn (acc @ [a]) (b # cs))"
| "split_nn acc [a] = [acc @ [a]]"
| "split_nn acc [] = [acc]"

section \<open>Overlap Extractor\<close>

definition sentence_starts :: "pystr list" where
  "sentence_starts = [[46, 32], [33, 32], [63, 32], [10]]"

text \<open>One iteration of \<open>for delimiter in sentence_starts\<close>, on the value of \<open>best_start\<close>.\<close>

definition best_step :: "pystr \<Rightarrow> int \<Rightarrow> pystr \<Rightarrow> int" where
  "best_step overlap_candidate best_start delimiter =
     (let pos = str_find overlap_candidate delimiter
      in if pos \<noteq> - 1 \<and> pos > best_start then pos + int (length delimiter) else best_start)"

definition get_overlap_text :: "pystr \<Rightarrow> int \<Rightarrow> pystr" where
  "get_overlap_text text overlap_size =
     (if int (length text) \<le> overlap_size then text
      else
        (let overlap_candidate = slice_from text (- overlap_size);
             best_start = foldl (best_step overlap_candidate) 0 sentence_starts
         in if best_start > 0 then strip (slice_from overlap_candidate best_start)
            else strip overlap_candidate))"

section \<open>Sentence Splitter\<close>

definition is_punct :: "codepoint \<Rightarrow> bool" where
  "is_punct c \<longleftrightarrow> c = 46 \<or> c = 33 \<or> c = 63"

text \<open>
  A match of \<open>[.!?]+\s+\<close> anchored at the start of \<open>s\<close>: the matched text and the rest.
  Both repetitions are greedy, and a punctuation mark is never whitespace, so the match, when
  there is one, is the longest run of marks followed by the longest run of whitespace.
\<close>

definition match_delim :: "pystr \<Rightarrow> (pystr \<times> pystr) option" where
  "match_delim s =
     (let marks = takeWhile is_punct s;
          rest = dropWhile is_punct s;
          spaces = takeWhile isspace rest
      in if marks \<noteq> [] \<and> spaces \<noteq> [] then Some (marks @ spaces, dropWhile isspace rest)
         else None)"

lemma match_delim_shorter: "match_delim s = Some (d, r) \<Longrightarrow> length r < length s"
proof -
  assume m: "match_delim s = Some (d, r)"
  then have ne: "takeWhile is_punct s \<noteq> []"
    and r: "r = dropWhile isspace (dropWhile is_punct s)"
    by (auto simp: match_delim_def Let_def split: if_splits)
  have "length r \<le> length (dropWhile is_punct s)"
    unfolding r by (rule length_dropWhile_le)
  moreover have "length (dropWhile is_punct s) < length s"
  proof -
    have "length (takeWhile is_punct s) + length (dropWhile is_punct s) = length s"
      by (metis length_append takeWhile_dropWhile_id)
    with ne show ?thesis by (cases "takeWhile is_punct s") auto
  qed
  ultimately show ?thesis by simp
qed

text \<open>
  \<open>re.split(r'([.!?]+\s+)', paragraph)\<close>: the pattern is tried at each position from left to
  right; with the capturing group the result alternates text, delimiter, text, ..., text.
  \<open>acc\<close> is the text read since the last delimiter.
\<close>

function re_split :: "pystr \<Rightarrow> pystr \<Rightarrow> pystr list" where
  "re_split acc [] = [acc]"
| "re_split acc (c # cs) =
     (case match_delim (c # cs) of
        Some (d, r) \<Rightarrow> acc # d # re_split [] r
      | None \<Rightarrow> re_split (acc @ [c]) cs)"
  by pat_completeness auto
termination
  by (relation "measure (\<lambda>(acc, s). length s)") (auto dest: match_delim_shorter)

text \<open>
  The loop \<open>for i in range(0, len(sentences) - 1, 2)\<close> from index \<open>i\<close> on, with its test
  \<open>i + 1 < len(sentences)\<close>.
\<close>

function join_pairs :: "pystr list \<Rightarrow> nat \<Rightarrow> pystr list" where
  "join_pairs sentences i =
     (if int i < int (length sentences) - 1
      then (if i + 1 < length sentences then sentences ! i @ sentences ! (i + 1)
            else sentences ! i) # join_pairs sentences (i + 2)
      else [])"
  by pat_completeness auto
termination
  by (relation "measure (\<lambda>(sentences, i). length sentences - i)") auto

declare join_pairs.simps [simp del]

definition full_sentences :: "pystr list \<Rightarrow> pystr list" where
  "full_sentences sentences =
     join_pairs sentences 0 @ (if length sentences mod 2 = 1 then [last sentences] else [])"

text \<open>The sentence-splitting step of \<open>_split_long_paragraph\<close> (its first part).\<close>

definition split_sentences :: "pystr \<Rightarrow> pystr list" where
  "split_sentences paragraph = full_sentences (re_split [] paragraph)"

section \<open>Paragraph Chunker\<close>

text \<open>
  The state of both packing loops is the pair of \<open>chunks\<close> (the output so far) and
  \<open>current_chunk\<close>. One iteration of \<open>for sentence in full_sentences\<close>:
\<close>

type_synonym chunker_state = "pystr list \<times> pystr"

definition sentence_step :: "int \<Rightarrow> int \<Rightarrow> chunker_state \<Rightarrow> pystr \<Rightarrow> chunker_state" where
  "sentence_step chunk_size overlap st raw =
     (let chunks = fst st; current_chunk = snd st; sentence = strip raw
      in if sentence = [] then (chunks, current_chunk)
         else if int (length current_chunk) + int (length sentence) + 1 \<le> chunk_size
         then (if current_chunk \<noteq> [] then (chunks, current_chunk @ [32] @ sentence)
               else (chunks, sentence))
         else if current_chunk \<noteq> []
         then (let overlap_text = get_overlap_text current_chunk overlap
               in (chunks @ [current_chunk],
                   if overlap_text \<noteq> [] then overlap_text @ [32] @ sentence else sentence))
         else (chunks, sentence))"

definition split_long_paragraph :: "pystr \<Rightarrow> int \<Rightarrow> int \<Rightarrow> pystr list" where
  "split_long_paragraph paragraph chunk_size overlap =
     (let st = foldl (sentence_step chunk_size overlap) ([], []) (split_sentences paragraph)
      in if snd st \<noteq> [] then fst st @ [snd st] else fst st)"

section \<open>Text Chunker\<close>

text \<open>One iteration of \<open>for paragraph in paragraphs\<close>.\<close>

definition paragraph_step :: "int \<Rightarrow> int \<Rightarrow> chunker_state \<Rightarrow> pystr \<Rightarrow> chunker_state" where
  "paragraph_step chunk_size overlap st raw =
     (let chunks = fst st; current_chunk = snd st; paragraph = strip raw
      in if paragraph = [] then (chunks, current_chunk)
         else if int (length current_chunk) + int (length paragraph) + 2 \<le> chunk_size
         then (if current_chunk \<noteq> [] then (chunks, current_chunk @ [10, 10] @ paragraph)
               else (chunks, paragraph))
         else if current_chunk \<noteq> []
         then (let overlap_text = get_overlap_text current_chunk overlap
               in (chunks @ [current_chunk],
                   if overlap_text \<noteq> [] then overlap_text @ [10, 10] @ paragraph
                   else paragraph))
         else if int (length paragraph) > chunk_size
         then (let sentence_chunks = split_long_paragraph paragraph chunk_size overlap
               in if sentence_chunks \<noteq> []
                  then (chunks @ butlast sentence_chunks, last sentence_chunks)
                  else (chunks, current_chunk))
         else (chunks, paragraph))"

text \<open>\<open>_chunk_text\<close> up to and including the flush of the last chunk, before the filter.\<close>

definition assemble_chunks :: "pystr \<Rightarrow> int \<Rightarrow> int \<Rightarrow> pystr list" where
  "assemble_chunks text chunk_size overlap =
     (let st = foldl (paragraph_step chunk_size overlap) ([], []) (split_nn [] text)
      in if snd st \<noteq> [] then fst st @ [snd st] else fst st)"

definition chunk_text :: "pystr \<Rightarrow> int \<Rightarrow> int \<Rightarrow> pystr list" where
  "chunk_text text chunk_size overlap =
     filter (\<lambda>chunk. 50 \<le> length chunk) (assemble_chunks text chunk_size overlap)"

section \<open>Embedding/Index Gateway\<close>

text \<open>
  The file system, the Qdrant index and the embedding provider are outside the program. The
  world holds what the program can observe of them: the readable files, the points of each
  collection, a fault of the index (when set, every access to the index raises an exception
  with that message), the texts sent to the provider so far, and the supply of fresh
  identifiers that stands for \<open>uuid.uuid4()\<close>. The provider itself is a function from a text
  to a vector or to the message of the exception it raises. Console output is not modelled.
\<close>

datatype error = FileNotFoundError pystr | IndexError pystr | ProviderError pystr

fun error_message :: "error \<Rightarrow> pystr" where
  "error_message (FileNotFoundError m) = m"
| "error_message (IndexError m) = m"
| "error_message (ProviderError m) = m"

record 'v point =
  pt_id :: nat
  pt_vector :: 'v
  pt_text :: pystr
  pt_chunk_id :: nat

record vector_store =
  collection_name :: pystr
  persist_directory :: pystr
  vector_size :: nat

record 'v world =
  files :: "pystr \<rightharpoonup> pystr"
  collections :: "pystr \<rightharpoonup> 'v point list"
  index_fault :: "pystr option"
  embed_log :: "pystr list"
  uuid_supply :: nat

text \<open>\<open>client.get_collection(name).points_count\<close>.\<close>

definition get_collection :: "'v world \<Rightarrow> pystr \<Rightarrow> error + nat" where
  "get_collection w name =
     (case index_fault w of
        Some m \<Rightarrow> Inl (IndexError m)
      | None \<Rightarrow> (case collections w name of
                   None \<Rightarrow> Inl (IndexError name)
                 | Some pts \<Rightarrow> Inr (length pts)))"

text \<open>\<open>client.upsert\<close>: points with a known identifier are replaced, the others added.\<close>

definition upsert :: "'v world \<Rightarrow> pystr \<Rightarrow> 'v point list \<Rightarrow> (error + unit) \<times> 'v world" where
  "upsert w name points =
     (case index_fault w of
        Some m \<Rightarrow> (Inl (IndexError m), w)
      | None \<Rightarrow> (case collections w name of
                   None \<Rightarrow> (Inl (IndexError name), w)
                 | Some pts \<Rightarrow>
                     (Inr (),
                      w\<lparr>collections := (collections w)(name \<mapsto>
                           filter (\<lambda>p. pt_id p \<notin> pt_id ` set points) pts @ points)\<rparr>)))"

definition create_embedding ::
  "(pystr \<Rightarrow> pystr + 'v) \<Rightarrow> pystr \<Rightarrow> 'v world \<Rightarrow> (error + 'v) \<times> 'v world" where
  "create_embedding provider text w =
     (case provider text of
        Inl m \<Rightarrow> (Inl (ProviderError m), w\<lparr>embed_log := embed_log w @ [text]\<rparr>)
      | Inr v \<Rightarrow> (Inr v, w\<lparr>embed_log := embed_log w @ [text]\<rparr>))"

text \<open>The loop \<open>for i, chunk in enumerate(chunks)\<close> of \<open>load_documents\<close>.\<close>

fun embed_chunks ::
  "(pystr \<Rightarrow> pystr + 'v) \<Rightarrow> (nat \<times> pystr) list \<Rightarrow> 'v point list \<Rightarrow> 'v world
   \<Rightarrow> (error + 'v point list) \<times> 'v world" where
  "embed_chunks provider [] points w = (Inr points, w)"
| "embed_chunks provider ((i, chunk) # rest) points w =
     (case create_embedding provider chunk w of
        (Inl e, w') \<Rightarrow> (Inl e, w')
      | (Inr embedding, w') \<Rightarrow>
          embed_chunks provider rest
            (points @ [\<lparr>pt_id = uuid_supply w', pt_vector = embedding, pt_text = chunk,
                        pt_chunk_id = i\<rparr>])
            (w'\<lparr>uuid_supply := uuid_supply w' + 1\<rparr>))"

definition load_documents ::
  "(pystr \<Rightarrow> pystr + 'v) \<Rightarrow> vector_store \<Rightarrow> pystr \<Rightarrow> 'v world \<Rightarrow> (error + unit) \<times> 'v world"
  where
  "load_documents provider self file_path w =
     (case files w file_path of
        None \<Rightarrow> (Inl (FileNotFoundError file_path), w)
      | Some text \<Rightarrow>
          (let chunks = chunk_text text 500 100
           in case get_collection w (collection_name self) of
                Inl e \<Rightarrow> (Inl e, w)
              | Inr points_count \<Rightarrow>
                  if points_count > 0 then (Inr (), w)
                  else (case embed_chunks provider (enumerate 0 chunks) [] w of
                          (Inl e, w') \<Rightarrow> (Inl e, w')
                        | (Inr points, w') \<Rightarrow> upsert w' (collection_name self) points)))"

datatype pyval = VStr pystr | VInt int

text \<open>
  \<open>get_collection_stats\<close>: the \<open>try\<close> block and its \<open>except Exception\<close> handler. The result is
  the returned dictionary, or the exception that leaves the method.
\<close>

definition get_collection_stats :: "vector_store \<Rightarrow> 'v world \<Rightarrow> error + (string \<rightharpoonup> pyval)" where
  "get_collection_stats self w =
     (case get_collection w (collection_name self) of
        Inr points_count \<Rightarrow>
          Inr [''name'' \<mapsto> VStr (collection_name self),
               ''count'' \<mapsto> VInt (int points_count),
               ''persist_directory'' \<mapsto> VStr (persist_directory self),
               ''vector_size'' \<mapsto> VInt (int (vector_size self))]
      | Inl e \<Rightarrow>
          Inr [''name'' \<mapsto> VStr (collection_name self),
               ''count'' \<mapsto> VInt 0,
               ''persist_directory'' \<mapsto> VStr (persist_directory self),
               ''error'' \<mapsto> VStr (error_message e)])"

section \<open>The Overlap Extractor as the specification words it\<close>

text \<open>
  The specification's reading of the boundary search, for comparison with the source: the
  window is the trailing \<open>overlap_size\<close> characters, every marker that occurs in it is a
  candidate at its first occurrence, and the candidate that occurs last wins; the raw window
  is returned only if no marker occurs.
\<close>

definition marker_hits :: "pystr \<Rightarrow> (int \<times> pystr) list" where
  "marker_hits window =
     filter (\<lambda>h. fst h \<noteq> - 1) (map (\<lambda>d. (str_find window d, d)) sentence_starts)"

definition furthest_hit :: "(int \<times> pystr) list \<Rightarrow> int \<times> pystr" where
  "furthest_hit hits = foldl (\<lambda>best h. if fst h > fst best then h else best) (- 1, []) hits"

definition spec_overlap_text :: "pystr \<Rightarrow> int \<Rightarrow> pystr" where
  "spec_overlap_text text overlap_size =
     (if int (length text) \<le> overlap_size then text
      else
        (let window = drop (length text - nat overlap_size) text;
             hits = marker_hits window
         in if hits = [] then strip window
            else (let h = furthest_hit hits
                  in strip (drop (nat (fst h) + length (snd h)) window))))"

section \<open>An example world\<close>

text \<open>
  A store on the collection \<open>c\<close>, which holds one point; the file \<open>d\<close> exists and reads
  \<open>hi\<close>; the provider answers every text.
\<close>

definition demo_store :: vector_store where
  "demo_store = \<lparr>collection_name = [99], persist_directory = [112], vector_size = 1536\<rparr>"

definition demo_world :: "nat world" where
  "demo_world =
     \<lparr>files = [[100] \<mapsto> [104, 105]],
      collections = [[99] \<mapsto> [\<lparr>pt_id = 0, pt_vector = 7, pt_text = [120], pt_chunk_id = 0\<rparr>]],
      index_fault = None, embed_log = [], uuid_supply = 1\<rparr>"

definition demo_provider :: "pystr \<Rightarrow> pystr + nat" where
  "demo_provider t = Inr (length t)"

section \<open>Trimmed strings\<close>

text \<open>
  A string is trimmed when \<open>strip\<close> leaves it as it is: it is empty, or it neither starts
  nor ends with whitespace. A state of a packing loop is trimmed when every chunk in it is.
\<close>

definition trimmed :: "pystr \<Rightarrow> bool" where
  "trimmed s \<longleftrightarrow> s = [] \<or> (\<not> isspace (hd s) \<and> \<not> isspace (last s))"


section \<open>What the chunks have to contain\<close>

text \<open>
  The non-blank paragraphs of a text, trimmed, as the paragraph loop sees them, and the
  non-blank sentences of a paragraph, trimmed, as the sentence loop sees them.
\<close>

definition nonblank_paragraphs :: "pystr \<Rightarrow> pystr list" where
  "nonblank_paragraphs t = filter (\<lambda>p. p \<noteq> []) (map strip (split_nn [] t))"

definition nonblank_sentences :: "pystr \<Rightarrow> pystr list" where
  "nonblank_sentences p = filter (\<lambda>s. s \<noteq> []) (map strip (split_sentences p))"

text \<open>
  A unit is a piece of text that the packing loops never cut, together with the separator
  that is put before it when it is appended to a chunk: one space before a sentence, a
  blank line before a paragraph. The units of a paragraph that is split are its non-blank
  sentences. The units of a text are its non-blank paragraphs, except that the first one
  is replaced by its sentences when it is longer than \<open>chunk_size\<close>: only then is
  \<open>current_chunk\<close> empty when a paragraph does not fit.
\<close>

type_synonym unit_piece = "pystr \<times> pystr"

definition sentence_units :: "pystr \<Rightarrow> unit_piece list" where
  "sentence_units p = map (Pair [32]) (nonblank_sentences p)"

definition paragraph_units :: "int \<Rightarrow> pystr \<Rightarrow> unit_piece list" where
  "paragraph_units cs t =
     (case nonblank_paragraphs t of
        [] \<Rightarrow> []
      | p # ps \<Rightarrow>
          (if cs < int (length p) then sentence_units p else [([10, 10], p)])
          @ map (Pair [10, 10]) ps)"

text \<open>
  The chunk made of a group of units that follows the chunk \<open>prev\<close>: the units joined by
  their separators, preceded by the overlap fragment of \<open>prev\<close> and the separator of the
  first unit when that fragment is not empty. The list of chunks made of a list of groups.
\<close>

definition render :: "int \<Rightarrow> pystr option \<Rightarrow> unit_piece list \<Rightarrow> pystr" where
  "render ov prev g =
     (case g of
        [] \<Rightarrow> []
      | u # us \<Rightarrow>
          (let fragment = (case prev of None \<Rightarrow> [] | Some c \<Rightarrow> get_overlap_text c ov)
           in (if fragment \<noteq> [] then fragment @ fst u else [])
              @ snd u @ concat (map (\<lambda>v. fst v @ snd v) us)))"

fun render_groups :: "int \<Rightarrow> pystr option \<Rightarrow> unit_piece list list \<Rightarrow> pystr list" where
  "render_groups ov prev [] = []"
| "render_groups ov prev (g # gs) =
     render ov prev g # render_groups ov (Some (render ov prev g)) gs"

text \<open>
  A state of a packing loop holds the units \<open>us\<close> when it is the initial state and there
  are none, or its chunks, the current one last, are the chunks made of a grouping of
  \<open>us\<close> into non-empty groups.
\<close>

definition packed :: "int \<Rightarrow> unit_piece list \<Rightarrow> chunker_state \<Rightarrow> bool" where
  "packed ov us st \<longleftrightarrow>
     (us = [] \<and> st = ([], [])) \<or>
     (snd st \<noteq> [] \<and>
      (\<exists>gs. concat gs = us \<and> [] \<notin> set gs \<and> gs \<noteq> []
            \<and> fst st @ [snd st] = render_groups ov None gs))"

section \<open>Sentence splitting reassembles\<close>

lemma match_delim_concat: "match_delim s = Some (d, r) \<Longrightarrow> d @ r = s"
  by (auto simp: match_delim_def Let_def split: if_splits)

lemma concat_re_split: "concat (re_split acc s) = acc @ s"
proof (induction acc s rule: re_split.induct)
  case (1 acc)
  show ?case by simp
next
  case (2 acc c cs)
  show ?case
  proof (cases "match_delim (c # cs)")
    case None
    with 2 show ?thesis by simp
  next
    case (Some p)
    obtain d r where p: "p = (d, r)" by (cases p)
    from Some p have "d @ r = c # cs" by (simp add: match_delim_concat)
    with 2 Some p show ?thesis by simp
  qed
qed

lemma join_pairs_concat:
  "even i \<Longrightarrow> i \<le> length xs \<Longrightarrow>
   concat (join_pairs xs i) @ (if length xs mod 2 = 1 then last xs else []) = concat (drop i xs)"
proof (induction xs i rule: join_pairs.induct)
  case (1 xs i)
  show ?case
  proof (cases "int i < int (length xs) - 1")
    case True
    then have lt: "i + 1 < length xs" by simp
    then have d: "drop i xs = xs ! i # xs ! (i + 1) # drop (i + 2) xs"
      by (metis Cons_nth_drop_Suc Suc_eq_plus1 Suc_lessD add_2_eq_Suc')
    from lt "1.prems" have "even (i + 2)" "i + 2 \<le> length xs" by simp_all
    with "1.IH" True lt
    have "concat (join_pairs xs (i + 2)) @ (if length xs mod 2 = 1 then last xs else [])
          = concat (drop (i + 2) xs)" by simp
    with True lt d show ?thesis by (subst join_pairs.simps) simp
  next
    case False
    then have ge: "length xs \<le> i + 1" by simp
    show ?thesis
    proof (cases "i = length xs")
      case True
      with "1.prems" False show ?thesis
        by (subst join_pairs.simps) (simp add: even_iff_mod_2_eq_zero)
    next
      case ne: False
      with ge "1.prems" have i: "length xs = i + 1" by simp
      then have "xs \<noteq> []" by auto
      with i have "drop i xs = [last xs]"
        by (metis Suc_eq_plus1 append_butlast_last_id append_eq_conv_conj diff_Suc_1
            length_butlast)
      moreover from i "1.prems" have "length xs mod 2 = 1"
        by (simp add: even_iff_mod_2_eq_zero) presburger
      ultimately show ?thesis using False by (subst join_pairs.simps) simp
    qed
  qed
qed

lemma concat_full_sentences: "concat (full_sentences xs) = concat xs"
  using join_pairs_concat [of 0 xs] by (auto simp: full_sentences_def split: if_splits)

text \<open>
  C4. For every paragraph, concatenating in order the sentence fragments produced by the
  sentence-splitting step of \<open>_split_long_paragraph\<close> (each delimiter run re-attached to the
  sentence before it, the trailing fragment kept) gives back the paragraph exactly.
\<close>

theorem split_sentences_concat: "concat (split_sentences paragraph) = paragraph"
  by (simp add: split_sentences_def concat_full_sentences concat_re_split)

section \<open>Properties of the Overlap Extractor\<close>

lemma strip_prefix_dropWhile: "prefix (strip s) (dropWhile isspace s)"
proof -
  have "rev (dropWhile isspace s) =
        takeWhile isspace (rev (dropWhile isspace s)) @ dropWhile isspace (rev (dropWhile isspace s))"
    by simp
  then have "dropWhile isspace s =
        rev (dropWhile isspace (rev (dropWhile isspace s))) @ rev (takeWhile isspace (rev (dropWhile isspace s)))"
    by (metis rev_append rev_rev_ident)
  then show ?thesis unfolding strip_def by (metis prefixI)
qed

lemma sublist_strip: "sublist (strip s) s"
proof -
  have "sublist (strip s) (dropWhile isspace s)"
    using strip_prefix_dropWhile by (rule prefix_imp_sublist)
  moreover have "sublist (dropWhile isspace s) s"
    by (rule suffix_imp_sublist) (rule suffix_dropWhile)
  ultimately show ?thesis by (rule sublist_order.order_trans)
qed

lemma length_strip_le: "length (strip s) \<le> length s"
  using sublist_strip by (rule sublist_length_le)

lemma suffix_slice_from: "suffix (slice_from s i) s"
  by (simp add: slice_from_def suffix_drop)

lemma slice_from_tail:
  "1 \<le> n \<Longrightarrow> n < int (length s) \<Longrightarrow> slice_from s (- n) = drop (length s - nat n) s"
  by (simp add: slice_from_def nat_diff_distrib')

lemma length_slice_from_tail:
  "1 \<le> n \<Longrightarrow> n < int (length s) \<Longrightarrow> int (length (slice_from s (- n))) = n"
  by (simp add: slice_from_tail)

lemma get_overlap_text_cases:
  "get_overlap_text t n = t \<or> (\<exists>k. get_overlap_text t n = strip (drop k t))"
proof -
  obtain j where j: "slice_from t (- n) = drop j t"
    by (cases "- n < 0") (simp_all add: slice_from_def)
  have s: "\<exists>k. slice_from (drop j t) b = drop k t" for b
    by (cases "b < 0") (auto simp: slice_from_def)
  have "\<exists>k. strip (slice_from (drop j t) b) = strip (drop k t)" for b
    using s [of b] by auto
  moreover have "\<exists>k. strip (drop j t) = strip (drop k t)" by blast
  ultimately show ?thesis
    unfolding get_overlap_text_def Let_def j by presburger
qed

lemma sublist_get_overlap_text: "sublist (get_overlap_text t n) t"
proof -
  have "sublist (strip (drop k t)) t" for k
    by (meson sublist_strip suffix_drop suffix_imp_sublist sublist_order.order_trans)
  with get_overlap_text_cases [of t n] show ?thesis by auto
qed

lemma length_get_overlap_text:
  assumes "1 \<le> n"
  shows "int (length (get_overlap_text t n)) \<le> n"
proof (cases "int (length t) \<le> n")
  case True
  then show ?thesis by (simp add: get_overlap_text_def)
next
  case False
  then have lt: "n < int (length t)" by simp
  let ?w = "slice_from t (- n)"
  have w: "int (length ?w) = n" using assms lt by (rule length_slice_from_tail)
  have "length (strip (slice_from ?w b)) \<le> length ?w" for b
    by (meson length_strip_le sublist_length_le suffix_slice_from suffix_imp_sublist le_trans)
  moreover have "length (strip ?w) \<le> length ?w" by (rule length_strip_le)
  ultimately have "length (get_overlap_text t n) \<le> length ?w"
    using False by (simp add: get_overlap_text_def Let_def)
  with w show ?thesis by linarith
qed

text \<open>
  C10. For every text and every \<open>overlap_size \<ge> 1\<close>, the string returned by
  \<open>_get_overlap_text\<close> has at most \<open>overlap_size\<close> characters and is a contiguous substring
  of the text: the text itself or a trimmed suffix of it. The precondition is needed: with
  \<open>overlap_size = 0\<close> the window \<open>text[-0:]\<close> is the entire text, and the two-character
  text \<open>ab\<close> comes back whole.
\<close>

theorem get_overlap_text_bounded:
  "(1 \<le> n \<longrightarrow> int (length (get_overlap_text t n)) \<le> n
      \<and> sublist (get_overlap_text t n) t
      \<and> (get_overlap_text t n = t \<or> (\<exists>k. get_overlap_text t n = strip (drop k t))))
   \<and> slice_from t (- 0) = t
   \<and> get_overlap_text [97, 98] 0 = [97, 98]"
proof -
  have "get_overlap_text [97, 98] 0 = [97, 98]"
    by (simp add: get_overlap_text_def slice_from_def Let_def sentence_starts_def best_step_def
        strip_def isspace_def)
  moreover have "slice_from t (- 0) = t" by (simp add: slice_from_def)
  ultimately show ?thesis
    using length_get_overlap_text [of n t] sublist_get_overlap_text [of t n]
      get_overlap_text_cases [of t n] by blast
qed

theorem get_overlap_text_bounded_witness:
  "(1::int) \<le> 3 \<and> get_overlap_text [97, 46, 32, 98, 99] 3 = [98, 99]
   \<and> int (length (get_overlap_text [97, 46, 32, 98, 99] 3)) \<le> 3
   \<and> sublist (get_overlap_text [97, 46, 32, 98, 99] 3) [97, 46, 32, 98, 99]"
proof -
  have e: "get_overlap_text [97, 46, 32, 98, 99] 3 = [98, 99]"
    by (simp add: get_overlap_text_def slice_from_def Let_def sentence_starts_def best_step_def
        strip_def isspace_def)
  show ?thesis using get_overlap_text_bounded [of 3 "[97, 46, 32, 98, 99]"] e by simp
qed

lemmas overlap_eval =
  get_overlap_text_def spec_overlap_text_def marker_hits_def furthest_hit_def slice_from_def
  Let_def sentence_starts_def best_step_def strip_def isspace_def

text \<open>
  The source and the specification's reading differ on three inputs: with \<open>overlap_size = 0\<close>
  the window is the whole text, not the empty string; a marker at position 0 of the window
  is found but never taken; and a marker that starts exactly where the marker taken before
  it ends does not move the boundary.
\<close>

theorem get_overlap_text_counterexample:
  "get_overlap_text [97, 98] 0 = [97, 98] \<and> spec_overlap_text [97, 98] 0 = []
   \<and> get_overlap_text [120, 46, 32, 104, 105] 4 = [46, 32, 104, 105]
   \<and> spec_overlap_text [120, 46, 32, 104, 105] 4 = [104, 105]
   \<and> get_overlap_text [120, 97, 46, 32, 33, 32, 98] 6 = [33, 32, 98]
   \<and> spec_overlap_text [120, 97, 46, 32, 33, 32, 98] 6 = [98]"
  by (simp add: overlap_eval)

lemma foldl_best_step_mono: "b0 \<le> foldl (best_step w) b0 ds"
proof (induction ds arbitrary: b0)
  case Nil
  show ?case by simp
next
  case (Cons d ds)
  have "b0 \<le> best_step w b0 d" by (simp add: best_step_def Let_def)
  also have "\<dots> \<le> foldl (best_step w) (best_step w b0 d) ds" by (rule Cons.IH)
  finally show ?case by simp
qed

lemma foldl_best_step_covers:
  "0 \<le> b0 \<Longrightarrow> d \<in> set ds \<Longrightarrow> str_find w d \<le> foldl (best_step w) b0 ds"
proof (induction ds arbitrary: b0)
  case Nil
  then show ?case by simp
next
  case (Cons e ds)
  have nn: "0 \<le> best_step w b0 e"
    using Cons.prems(1) by (simp add: best_step_def Let_def)
  show ?case
  proof (cases "d = e")
    case True
    have "str_find w d \<le> best_step w b0 d"
      using Cons.prems(1) by (simp add: best_step_def Let_def)
    also have "\<dots> \<le> foldl (best_step w) (best_step w b0 d) ds" by (rule foldl_best_step_mono)
    finally show ?thesis using True by simp
  next
    case False
    with Cons.prems have "d \<in> set ds" by simp
    with nn show ?thesis using Cons.IH by simp
  qed
qed

lemma foldl_best_step_form:
  "foldl (best_step w) b0 ds = b0 \<or>
   (\<exists>d\<in>set ds. b0 < str_find w d \<and> foldl (best_step w) b0 ds = str_find w d + int (length d))"
proof (induction ds arbitrary: b0)
  case Nil
  show ?case by simp
next
  case (Cons e ds)
  let ?b1 = "best_step w b0 e"
  have b1: "?b1 = b0 \<or> (b0 < str_find w e \<and> ?b1 = str_find w e + int (length e))"
    by (simp add: best_step_def Let_def)
  have le: "b0 \<le> ?b1" by (simp add: best_step_def Let_def)
  from Cons.IH [of ?b1] show ?case
  proof
    assume "foldl (best_step w) ?b1 ds = ?b1"
    with b1 show ?thesis by auto
  next
    assume "\<exists>d\<in>set ds. ?b1 < str_find w d \<and>
              foldl (best_step w) ?b1 ds = str_find w d + int (length d)"
    then obtain d where "d \<in> set ds" "?b1 < str_find w d"
      "foldl (best_step w) ?b1 ds = str_find w d + int (length d)" by blast
    with le show ?thesis by (intro disjI2 bexI [of _ d]) auto
  qed
qed

lemma foldl_best_step_none:
  "\<forall>d\<in>set ds. str_find w d \<le> b0 \<Longrightarrow> foldl (best_step w) b0 ds = b0"
  by (induction ds arbitrary: b0) (auto simp: best_step_def Let_def)

lemma best_start_zero_iff:
  "foldl (best_step w) 0 ds = 0 \<longleftrightarrow> (\<forall>d\<in>set ds. str_find w d \<le> 0)"
proof
  assume z: "foldl (best_step w) 0 ds = 0"
  show "\<forall>d\<in>set ds. str_find w d \<le> 0"
  proof
    fix d assume "d \<in> set ds"
    then have "str_find w d \<le> foldl (best_step w) 0 ds"
      by (simp add: foldl_best_step_covers)
    with z show "str_find w d \<le> 0" by simp
  qed
next
  assume "\<forall>d\<in>set ds. str_find w d \<le> 0"
  then show "foldl (best_step w) 0 ds = 0" by (rule foldl_best_step_none)
qed

lemma get_overlap_text_window:
  assumes "1 \<le> n" "n < int (length t)"
  shows "get_overlap_text t n =
     (if 0 < foldl (best_step (drop (length t - nat n) t)) 0 sentence_starts
      then strip (drop (nat (foldl (best_step (drop (length t - nat n) t)) 0 sentence_starts))
                   (drop (length t - nat n) t))
      else strip (drop (length t - nat n) t))"
proof -
  have w: "slice_from t (- n) = drop (length t - nat n) t"
    using assms by (rule slice_from_tail)
  have "slice_from v b = drop (nat b) v" if "0 < b" for v b
    using that by (simp add: slice_from_def)
  then show ?thesis using assms by (simp add: get_overlap_text_def Let_def w)
qed

text \<open>
  C3 (amended). If \<open>len(text) \<le> overlap_size\<close> the text is returned unchanged. Otherwise, for
  \<open>overlap_size \<ge> 1\<close>, the window is the trailing \<open>overlap_size\<close> characters; the markers are
  examined in the order \<open>". "\<close>, \<open>"! "\<close>, \<open>"? "\<close>, \<open>"\n"\<close>, and the first occurrence of a
  marker moves the boundary to its end only if it starts after the current boundary
  (initially 0). The final boundary is 0 exactly when no marker has its first occurrence at a
  position greater than 0; otherwise it is the end of the first occurrence of some marker
  at a position greater than 0; and no marker's first occurrence starts after it. The result
  is the window after the boundary, trimmed, when the boundary is positive, and the trimmed
  window otherwise.
\<close>

theorem get_overlap_text_boundary:
  "(int (length t) \<le> n \<longrightarrow> get_overlap_text t n = t) \<and>
   (1 \<le> n \<and> n < int (length t) \<longrightarrow>
      (let w = drop (length t - nat n) t; b = foldl (best_step w) 0 sentence_starts
       in get_overlap_text t n = (if 0 < b then strip (drop (nat b) w) else strip w)
          \<and> (b = 0 \<longleftrightarrow> (\<forall>d\<in>set sentence_starts. str_find w d \<le> 0))
          \<and> (0 < b \<longrightarrow> (\<exists>d\<in>set sentence_starts. 0 < str_find w d
                              \<and> b = str_find w d + int (length d)))
          \<and> (\<forall>d\<in>set sentence_starts. str_find w d \<le> b)))"
proof (intro conjI impI)
  assume "int (length t) \<le> n"
  then show "get_overlap_text t n = t" by (simp add: get_overlap_text_def)
next
  assume a: "1 \<le> n \<and> n < int (length t)"
  define w where "w = drop (length t - nat n) t"
  define b where "b = foldl (best_step w) 0 sentence_starts"
  have 1: "get_overlap_text t n = (if 0 < b then strip (drop (nat b) w) else strip w)"
    using a get_overlap_text_window [of n t] by (simp add: w_def b_def)
  have 2: "b = 0 \<longleftrightarrow> (\<forall>d\<in>set sentence_starts. str_find w d \<le> 0)"
    unfolding b_def by (rule best_start_zero_iff)
  have 3: "0 < b \<longrightarrow> (\<exists>d\<in>set sentence_starts. 0 < str_find w d
                              \<and> b = str_find w d + int (length d))"
    using foldl_best_step_form [of w 0 sentence_starts] unfolding b_def by auto
  have 4: "\<forall>d\<in>set sentence_starts. str_find w d \<le> b"
    unfolding b_def by (auto intro: foldl_best_step_covers)
  from 1 2 3 4 show "let w = drop (length t - nat n) t; b = foldl (best_step w) 0 sentence_starts
       in get_overlap_text t n = (if 0 < b then strip (drop (nat b) w) else strip w)
          \<and> (b = 0 \<longleftrightarrow> (\<forall>d\<in>set sentence_starts. str_find w d \<le> 0))
          \<and> (0 < b \<longrightarrow> (\<exists>d\<in>set sentence_starts. 0 < str_find w d
                              \<and> b = str_find w d + int (length d)))
          \<and> (\<forall>d\<in>set sentence_starts. str_find w d \<le> b)"
    unfolding Let_def w_def [symmetric] b_def [symmetric] by blast
qed

theorem get_overlap_text_boundary_witness:
  "(1::int) \<le> 6 \<and> 6 < int (length [120, 97, 46, 32, 98, 33, 32, 99 :: nat])
   \<and> foldl (best_step [46, 32, 98, 33, 32, 99]) 0 sentence_starts = 5
   \<and> get_overlap_text [120, 97, 46, 32, 98, 33, 32, 99] 6 = [99]
   \<and> int (length [97, 98 :: nat]) \<le> 2 \<and> get_overlap_text [97, 98] 2 = [97, 98]"
proof -
  have b: "foldl (best_step [46, 32, 98, 33, 32, 99]) 0 sentence_starts = 5"
    by (simp add: sentence_starts_def best_step_def Let_def)
  have s: "strip [99] = [99]" by (simp add: strip_def isspace_def)
  from get_overlap_text_boundary [of "[120, 97, 46, 32, 98, 33, 32, 99]" 6]
  have "get_overlap_text [120, 97, 46, 32, 98, 33, 32, 99] 6 = [99]"
    by (simp add: Let_def b s)
  moreover from get_overlap_text_boundary [of "[97, 98]" 2]
  have "get_overlap_text [97, 98] 2 = [97, 98]" by simp
  ultimately show ?thesis using b by simp
qed

section \<open>Chunks are trimmed\<close>


lemma strip_trimmed: "trimmed s \<Longrightarrow> strip s = s"
proof (cases "s = []")
  case True
  then show ?thesis by (simp add: strip_def)
next
  case False
  assume "trimmed s"
  with False have h: "\<not> isspace (hd s)" and l: "\<not> isspace (last s)"
    by (auto simp: trimmed_def)
  from False h have d: "dropWhile isspace s = s" by (cases s) auto
  from False l have "\<not> isspace (hd (rev s))" by (simp add: hd_rev)
  with False have "dropWhile isspace (rev s) = rev s" by (cases "rev s") auto
  with d show ?thesis by (simp add: strip_def)
qed

lemma trimmed_strip: "trimmed (strip s)"
proof (cases "strip s = []")
  case True
  then show ?thesis by (simp add: trimmed_def)
next
  case False
  let ?d = "dropWhile isspace s"
  let ?e = "dropWhile isspace (rev ?d)"
  have s: "strip s = rev ?e" by (simp add: strip_def)
  with False have e: "?e \<noteq> []" by simp
  then have "\<not> isspace (hd ?e)" by (rule hd_dropWhile)
  with e have l: "\<not> isspace (last (strip s))" by (simp add: s last_rev)
  from e have "rev ?d \<noteq> []" by (cases "rev ?d") auto
  then have dne: "?d \<noteq> []" by simp
  then have hd: "\<not> isspace (hd ?d)" by (rule hd_dropWhile)
  obtain zs where "?d = strip s @ zs"
    using strip_prefix_dropWhile [of s] by (auto simp: prefix_def)
  with False have "hd (strip s) = hd ?d" by (cases "strip s") auto
  with hd l show ?thesis by (simp add: trimmed_def)
qed













section \<open>Properties of the gateway\<close>

lemma embed_chunks_error:
  "embed_chunks provider ics points w = (Inl e, w') \<Longrightarrow> \<exists>m. e = ProviderError m"
proof (induction ics arbitrary: points w)
  case Nil
  then show ?case by simp
next
  case (Cons ic ics)
  obtain i chunk where ic: "ic = (i, chunk)" by (cases ic)
  show ?case
  proof (cases "provider chunk")
    case (Inl m)
    with Cons.prems ic show ?thesis by (auto simp: create_embedding_def)
  next
    case (Inr v)
    with Cons.prems ic show ?thesis
      by (auto simp: create_embedding_def dest: Cons.IH)
  qed
qed

lemma upsert_error: "upsert w name points = (Inl e, w') \<Longrightarrow> \<exists>m. e = IndexError m"
  by (auto simp: upsert_def split: option.splits)

lemma get_collection_error: "get_collection w name = Inl e \<Longrightarrow> \<exists>m. e = IndexError m"
  by (auto simp: get_collection_def split: option.splits)

lemma load_documents_missing:
  "files w path = None \<Longrightarrow>
   load_documents provider self path w = (Inl (FileNotFoundError path), w)"
  by (simp add: load_documents_def)

lemma load_documents_present:
  assumes "files w path = Some doc"
  shows "fst (load_documents provider self path w) \<noteq> Inl (FileNotFoundError m)"
proof (cases "get_collection w (collection_name self)")
  case (Inl e)
  then obtain m' where "e = IndexError m'" using get_collection_error by blast
  with Inl assms show ?thesis by (simp add: load_documents_def Let_def)
next
  case (Inr n)
  show ?thesis
  proof (cases "n > 0")
    case True
    with Inr assms show ?thesis by (simp add: load_documents_def Let_def)
  next
    case False
    obtain res w' where ec:
      "embed_chunks provider (enumerate 0 (chunk_text doc 500 100)) [] w = (res, w')"
      by (cases "embed_chunks provider (enumerate 0 (chunk_text doc 500 100)) [] w")
    show ?thesis
    proof (cases res)
      case (Inl e)
      with ec obtain m' where "e = ProviderError m'" using embed_chunks_error by blast
      with Inl ec Inr False assms show ?thesis by (simp add: load_documents_def Let_def)
    next
      case r: (Inr points)
      obtain res2 w2 where up: "upsert w' (collection_name self) points = (res2, w2)"
        by (cases "upsert w' (collection_name self) points")
      have "res2 \<noteq> Inl (FileNotFoundError m)"
        using upsert_error [of w' "collection_name self" points _ w2] up by auto
      with r ec Inr False assms up show ?thesis by (simp add: load_documents_def Let_def)
    qed
  qed
qed

text \<open>
  C8. \<open>load_documents\<close> raises \<open>FileNotFoundError\<close> exactly when the file does not exist
  (every other failure is an error of the index or of the provider), and then it raises
  before any embedding call and any change of the index: the world is as it was.
\<close>

theorem load_documents_not_found:
  "((\<exists>m. fst (load_documents provider self path w) = Inl (FileNotFoundError m))
      \<longleftrightarrow> files w path = None)
   \<and> (files w path = None \<longrightarrow>
        load_documents provider self path w = (Inl (FileNotFoundError path), w))"
proof (cases "files w path")
  case None
  then show ?thesis by (simp add: load_documents_missing)
next
  case (Some doc)
  then show ?thesis using load_documents_present [of w path doc provider self] by simp
qed

text \<open>
  C7. If the collection holds at least one point when \<open>load_documents\<close> is called, nothing
  is ingested: the world after the call is the world before it, so no text was sent to the
  provider and the points of every collection are unchanged. When the index answers and
  the file exists, the call returns normally.
\<close>

theorem load_documents_skips_populated:
  assumes "collections w (collection_name self) = Some pts" and "pts \<noteq> []"
  shows "snd (load_documents provider self path w) = w
    \<and> embed_log (snd (load_documents provider self path w)) = embed_log w
    \<and> collections (snd (load_documents provider self path w)) = collections w
    \<and> (index_fault w = None \<and> files w path \<noteq> None \<longrightarrow>
         fst (load_documents provider self path w) = Inr ())"
proof -
  have "get_collection w (collection_name self) = Inr (length pts)" if "index_fault w = None"
    using that assms by (simp add: get_collection_def)
  moreover have "\<exists>m. get_collection w (collection_name self) = Inl (IndexError m)"
    if "index_fault w \<noteq> None"
    using that by (auto simp: get_collection_def)
  ultimately show ?thesis using assms(2)
    by (cases "index_fault w"; cases "files w path") (auto simp: load_documents_def Let_def)
qed

text \<open>
  C9. \<open>get_collection_stats\<close> never raises: it always returns a dictionary with the
  collection name and the storage location; when the index answers, the dictionary carries
  the point count and the vector dimensionality and no error; when the access to the index
  fails, it carries count 0 and the description of the error.
\<close>

theorem get_collection_stats_total:
  "\<exists>d. get_collection_stats self w = Inr d
     \<and> d ''name'' = Some (VStr (collection_name self))
     \<and> d ''persist_directory'' = Some (VStr (persist_directory self))
     \<and> (\<forall>n. get_collection w (collection_name self) = Inr n \<longrightarrow>
            d ''count'' = Some (VInt (int n))
          \<and> d ''vector_size'' = Some (VInt (int (vector_size self)))
          \<and> d ''error'' = None)
     \<and> (\<forall>e. get_collection w (collection_name self) = Inl e \<longrightarrow>
            d ''count'' = Some (VInt 0) \<and> d ''error'' = Some (VStr (error_message e)))"
  by (cases "get_collection w (collection_name self)") (simp_all add: get_collection_stats_def)


theorem load_documents_not_found_witness:
  "files demo_world [101] = None
   \<and> load_documents demo_provider demo_store [101] demo_world
       = (Inl (FileNotFoundError [101]), demo_world)
   \<and> files demo_world [100] \<noteq> None
   \<and> \<not> (\<exists>m. fst (load_documents demo_provider demo_store [100] demo_world)
              = Inl (FileNotFoundError m))"
proof -
  have a: "files demo_world [101] = None" and b: "files demo_world [100] \<noteq> None"
    by (simp_all add: demo_world_def)
  from load_documents_not_found [of demo_provider demo_store "[101]" demo_world] a
  have "load_documents demo_provider demo_store [101] demo_world
          = (Inl (FileNotFoundError [101]), demo_world)" by blast
  moreover from load_documents_not_found [of demo_provider demo_store "[100]" demo_world] b
  have "\<not> (\<exists>m. fst (load_documents demo_provider demo_store [100] demo_world)
              = Inl (FileNotFoundError m))" by blast
  ultimately show ?thesis using a b by blast
qed

theorem load_documents_skips_populated_witness:
  "collections demo_world (collection_name demo_store)
     = Some [\<lparr>pt_id = 0, pt_vector = 7, pt_text = [120], pt_chunk_id = 0\<rparr>]
   \<and> index_fault demo_world = None \<and> files demo_world [100] \<noteq> None
   \<and> load_documents demo_provider demo_store [100] demo_world = (Inr (), demo_world)"
proof -
  have c: "collections demo_world (collection_name demo_store)
     = Some [\<lparr>pt_id = 0, pt_vector = 7, pt_text = [120], pt_chunk_id = 0\<rparr>]"
    and i: "index_fault demo_world = None" and f: "files demo_world [100] \<noteq> None"
    by (simp_all add: demo_world_def demo_store_def)
  from load_documents_skips_populated [OF c, of demo_provider "[100]"] i f
  have "snd (load_documents demo_provider demo_store [100] demo_world) = demo_world"
    and "fst (load_documents demo_provider demo_store [100] demo_world) = Inr ()"
    by simp_all
  then have "load_documents demo_provider demo_store [100] demo_world = (Inr (), demo_world)"
    by (metis prod.collapse)
  with c i f show ?thesis by blast
qed

theorem get_collection_stats_total_witness:
  "get_collection demo_world (collection_name demo_store) = Inr 1
   \<and> (\<exists>d. get_collection_stats demo_store demo_world = Inr d
          \<and> d ''count'' = Some (VInt 1) \<and> d ''vector_size'' = Some (VInt 1536)
          \<and> d ''error'' = None)
   \<and> get_collection (demo_world\<lparr>index_fault := Some [102]\<rparr>) (collection_name demo_store)
       = Inl (IndexError [102])
   \<and> (\<exists>d. get_collection_stats demo_store (demo_world\<lparr>index_fault := Some [102]\<rparr>) = Inr d
          \<and> d ''count'' = Some (VInt 0) \<and> d ''error'' = Some (VStr [102]))"
proof -
  have g: "get_collection demo_world (collection_name demo_store) = Inr 1"
    by (simp add: get_collection_def demo_world_def demo_store_def)
  have h: "get_collection (demo_world\<lparr>index_fault := Some [102]\<rparr>) (collection_name demo_store)
       = Inl (IndexError [102])"
    by (simp add: get_collection_def)
  have v: "vector_size demo_store = 1536" by (simp add: demo_store_def)
  from get_collection_stats_total [of demo_store demo_world] g v
  have 1: "\<exists>d. get_collection_stats demo_store demo_world = Inr d
          \<and> d ''count'' = Some (VInt 1) \<and> d ''vector_size'' = Some (VInt 1536)
          \<and> d ''error'' = None" by auto
  from get_collection_stats_total [of demo_store "demo_world\<lparr>index_fault := Some [102]\<rparr>"] h
  have 2: "\<exists>d. get_collection_stats demo_store (demo_world\<lparr>index_fault := Some [102]\<rparr>) = Inr d
          \<and> d ''count'' = Some (VInt 0) \<and> d ''error'' = Some (VStr [102])" by auto
  from g h 1 2 show ?thesis by blast
qed

section \<open>Properties of the Text Chunker\<close>

lemma split_nn_plain: "10 \<notin> set xs \<Longrightarrow> split_nn acc xs = [acc @ xs]"
  by (induction acc xs rule: split_nn.induct) auto

lemma split_nn_blank_line:
  "10 \<notin> set xs \<Longrightarrow> split_nn acc (xs @ 10 # 10 # ys) = (acc @ xs) # split_nn [] ys"
proof (induction xs arbitrary: acc)
  case Nil
  show ?case by simp
next
  case (Cons x xs)
  then have x: "x \<noteq> 10" and xs: "10 \<notin> set xs" by auto
  obtain b cs where bc: "xs @ 10 # 10 # ys = b # cs" by (cases "xs @ 10 # 10 # ys") auto
  have "split_nn acc ((x # xs) @ 10 # 10 # ys) = split_nn (acc @ [x]) (xs @ 10 # 10 # ys)"
    using x by (simp add: bc)
  also have "\<dots> = ((acc @ [x]) @ xs) # split_nn [] ys" using xs by (rule Cons.IH)
  finally show ?case by simp
qed

lemma trimmed_replicate: "\<not> isspace c \<Longrightarrow> trimmed (replicate n c)"
  by (cases n) (auto simp: trimmed_def last_replicate)

lemma strip_replicate_a: "strip (replicate n 97) = replicate n 97"
  by (rule strip_trimmed, rule trimmed_replicate) (simp add: isspace_def)

lemma assemble_two:
  assumes s: "split_nn [] t = [r1, r2]"
    and p1: "strip r1 \<noteq> []" and p2: "strip r2 \<noteq> []"
    and f1: "int (length (strip r1)) + 2 \<le> cs"
  shows "assemble_chunks t cs ov =
     (if int (length (strip r1)) + int (length (strip r2)) + 2 \<le> cs
      then [strip r1 @ [10, 10] @ strip r2]
      else [strip r1,
            if get_overlap_text (strip r1) ov \<noteq> []
            then get_overlap_text (strip r1) ov @ [10, 10] @ strip r2 else strip r2])"
proof -
  have 1: "paragraph_step cs ov ([], []) r1 = ([], strip r1)"
    using p1 f1 by (simp add: paragraph_step_def Let_def)
  have 2: "paragraph_step cs ov ([], strip r1) r2 =
     (if int (length (strip r1)) + int (length (strip r2)) + 2 \<le> cs
      then ([], strip r1 @ [10, 10] @ strip r2)
      else ([strip r1],
            if get_overlap_text (strip r1) ov \<noteq> []
            then get_overlap_text (strip r1) ov @ [10, 10] @ strip r2 else strip r2))"
    using p1 p2 by (simp add: paragraph_step_def Let_def)
  show ?thesis
    using p2 by (simp add: assemble_chunks_def s 1 2 Let_def)
qed

lemma two_paragraphs_300:
  assumes "split_nn [] t = [r1, r2]" "length (strip r1) = 300" "length (strip r2) = 300"
  shows "chunk_text t 500 100 =
     [strip r1,
      if get_overlap_text (strip r1) 100 \<noteq> []
      then get_overlap_text (strip r1) 100 @ [10, 10] @ strip r2 else strip r2]"
proof -
  from assms have ne: "strip r1 \<noteq> []" "strip r2 \<noteq> []" by auto
  have "assemble_chunks t 500 100 =
     [strip r1,
      if get_overlap_text (strip r1) 100 \<noteq> []
      then get_overlap_text (strip r1) 100 @ [10, 10] @ strip r2 else strip r2]"
    using assemble_two [OF assms(1) ne, of 500 100] assms(2,3) by simp
  then show ?thesis using assms(2,3) by (simp add: chunk_text_def)
qed

lemma two_paragraphs_200:
  assumes "split_nn [] t = [r1, r2]" "length (strip r1) = 200" "length (strip r2) = 200"
  shows "chunk_text t 500 100 = [strip r1 @ [10, 10] @ strip r2]"
proof -
  from assms have ne: "strip r1 \<noteq> []" "strip r2 \<noteq> []" by auto
  have "assemble_chunks t 500 100 = [strip r1 @ [10, 10] @ strip r2]"
    using assemble_two [OF assms(1) ne, of 500 100] assms(2,3) by simp
  then show ?thesis using assms(2,3) by (simp add: chunk_text_def)
qed

lemma split_two_a:
  "split_nn [] (replicate m 97 @ 10 # 10 # replicate n 97) = [replicate m 97, replicate n 97]"
  using split_nn_blank_line [of "replicate m 97" "[]" "replicate n 97"]
    split_nn_plain [of "replicate n 97" "[]"] by simp

text \<open>
  Two paragraphs of 300 characters each, separated by a blank line, with the default sizes:
  the second paragraph does not fit beside the first (\<open>300 + 300 + 2 > 500\<close>), the first is
  flushed, and two chunks come out, not one.
\<close>

theorem two_paragraphs_one_chunk_counterexample:
  "length (chunk_text (replicate 300 97 @ 10 # 10 # replicate 300 97) 500 100) = 2"
  using two_paragraphs_300 [OF split_two_a [of 300 300]] by (simp add: strip_replicate_a)

text \<open>
  C5 (amended). With \<open>chunk_size = 500\<close> and \<open>overlap = 100\<close>, a two-paragraph input in which
  each paragraph (trimmed) has 300 characters yields exactly two chunks: the first paragraph,
  and the overlap fragment of the first paragraph, a blank line and the second paragraph
  (the second paragraph alone if the fragment is empty). Two paragraphs of 200 characters
  each do fit together and yield exactly one chunk, of 402 characters.
\<close>

theorem two_paragraphs_chunks:
  "(split_nn [] t = [r1, r2] \<and> length (strip r1) = 300 \<and> length (strip r2) = 300 \<longrightarrow>
      length (chunk_text t 500 100) = 2
      \<and> chunk_text t 500 100 =
          [strip r1,
           if get_overlap_text (strip r1) 100 \<noteq> []
           then get_overlap_text (strip r1) 100 @ [10, 10] @ strip r2 else strip r2])
   \<and> (split_nn [] t = [r1, r2] \<and> length (strip r1) = 200 \<and> length (strip r2) = 200 \<longrightarrow>
      chunk_text t 500 100 = [strip r1 @ [10, 10] @ strip r2]
      \<and> length (strip r1 @ [10, 10] @ strip r2) = 402)"
  using two_paragraphs_300 [of t r1 r2] two_paragraphs_200 [of t r1 r2] by simp

theorem two_paragraphs_chunks_witness:
  "split_nn [] (replicate 300 98 @ 10 # 10 # replicate 300 98) = [replicate 300 98, replicate 300 98]
   \<and> length (strip (replicate 300 98)) = 300
   \<and> length (chunk_text (replicate 300 98 @ 10 # 10 # replicate 300 98) 500 100) = 2
   \<and> split_nn [] (replicate 200 98 @ 10 # 10 # replicate 200 98) = [replicate 200 98, replicate 200 98]
   \<and> length (strip (replicate 200 98)) = 200
   \<and> chunk_text (replicate 200 98 @ 10 # 10 # replicate 200 98) 500 100
       = [replicate 200 98 @ 10 # 10 # replicate 200 98]"
proof -
  have sp: "split_nn [] (replicate m 98 @ 10 # 10 # replicate n 98) = [replicate m 98, replicate n 98]"
    for m n
    using split_nn_blank_line [of "replicate m 98" "[]" "replicate n 98"]
      split_nn_plain [of "replicate n 98" "[]"] by simp
  have st: "strip (replicate n 98) = replicate n 98" for n
    by (rule strip_trimmed, rule trimmed_replicate) (simp add: isspace_def)
  from two_paragraphs_chunks
    [of "replicate 300 98 @ 10 # 10 # replicate 300 98" "replicate 300 98" "replicate 300 98"]
  have a: "length (chunk_text (replicate 300 98 @ 10 # 10 # replicate 300 98) 500 100) = 2"
    by (simp add: sp st)
  from two_paragraphs_chunks
    [of "replicate 200 98 @ 10 # 10 # replicate 200 98" "replicate 200 98" "replicate 200 98"]
  have b: "chunk_text (replicate 200 98 @ 10 # 10 # replicate 200 98) 500 100
       = [replicate 200 98 @ 10 # 10 # replicate 200 98]"
    by (simp add: sp st)
  show ?thesis using a b by (simp add: sp st)
qed

text \<open>
  C2. For every text, \<open>chunk_size\<close> and \<open>overlap\<close>, the result of \<open>_chunk_text\<close> is the
  sequence of fully assembled chunks passed through one final filter that keeps the chunks
  of at least 50 characters; so every returned chunk has at least 50 characters.
\<close>

theorem chunk_text_min_length:
  "chunk_text t cs ov = filter (\<lambda>c. 50 \<le> length c) (assemble_chunks t cs ov)
   \<and> (\<forall>c\<in>set (chunk_text t cs ov). 50 \<le> length c)"
  by (simp add: chunk_text_def)

lemma assemble_one:
  assumes "10 \<notin> set t" "strip t \<noteq> []" "int (length (strip t)) + 2 \<le> cs"
  shows "assemble_chunks t cs ov = [strip t]"
  using assms by (simp add: assemble_chunks_def split_nn_plain paragraph_step_def Let_def)

theorem chunk_text_min_length_witness:
  "chunk_text (replicate 50 97) 500 100 = [replicate 50 97]
   \<and> replicate 50 97 \<in> set (chunk_text (replicate 50 97) 500 100)
   \<and> 50 \<le> length (replicate 50 (97::nat))
   \<and> assemble_chunks [104, 105] 500 100 = [[104, 105]]
   \<and> chunk_text [104, 105] 500 100 = []"
proof -
  have a: "assemble_chunks (replicate 50 97) 500 100 = [replicate 50 97]"
    using assemble_one [of "replicate 50 97" 500 100] by (simp add: strip_replicate_a)
  have "strip [104, 105] = [104, 105]" by (simp add: strip_def isspace_def)
  then have b: "assemble_chunks [104, 105] 500 100 = [[104, 105]]"
    using assemble_one [of "[104, 105]" 500 100] by simp
  from chunk_text_min_length [of "replicate 50 97" 500 100] a
  have c: "chunk_text (replicate 50 97) 500 100 = [replicate 50 97]" by simp
  from chunk_text_min_length [of "[104, 105]" 500 100] b
  have d: "chunk_text [104, 105] 500 100 = []" by simp
  from a b c d show ?thesis by simp
qed

section \<open>The steps of the paragraph loop, case by case\<close>

lemma paragraph_step_blank:
  "strip r = [] \<Longrightarrow> paragraph_step cs ov (chunks, cur) r = (chunks, cur)"
  by (simp add: paragraph_step_def)

lemma paragraph_step_fits:
  "strip r \<noteq> [] \<Longrightarrow> int (length cur) + int (length (strip r)) + 2 \<le> cs \<Longrightarrow>
   paragraph_step cs ov (chunks, cur) r =
     (chunks, if cur \<noteq> [] then cur @ 10 # 10 # strip r else strip r)"
  by (simp add: paragraph_step_def Let_def)

lemma paragraph_step_flush:
  "strip r \<noteq> [] \<Longrightarrow> \<not> int (length cur) + int (length (strip r)) + 2 \<le> cs \<Longrightarrow> cur \<noteq> [] \<Longrightarrow>
   paragraph_step cs ov (chunks, cur) r =
     (chunks @ [cur],
      if get_overlap_text cur ov \<noteq> [] then get_overlap_text cur ov @ 10 # 10 # strip r
      else strip r)"
  by (simp add: paragraph_step_def Let_def)

lemma paragraph_step_split:
  "strip r \<noteq> [] \<Longrightarrow> \<not> int 0 + int (length (strip r)) + 2 \<le> cs \<Longrightarrow>
   cs < int (length (strip r)) \<Longrightarrow>
   paragraph_step cs ov (chunks, []) r =
     (if split_long_paragraph (strip r) cs ov \<noteq> []
      then (chunks @ butlast (split_long_paragraph (strip r) cs ov),
            last (split_long_paragraph (strip r) cs ov))
      else (chunks, []))"
  by (simp add: paragraph_step_def Let_def)

lemma paragraph_step_alone:
  "strip r \<noteq> [] \<Longrightarrow> \<not> int 0 + int (length (strip r)) + 2 \<le> cs \<Longrightarrow>
   \<not> cs < int (length (strip r)) \<Longrightarrow>
   paragraph_step cs ov (chunks, []) r = (chunks, strip r)"
  by (simp add: paragraph_step_def Let_def)

section \<open>The assembled chunks are the units, grouped\<close>

lemma render_snoc:
  "g \<noteq> [] \<Longrightarrow> render ov prev (g @ [(s, u)]) = render ov prev g @ s @ u"
  by (cases g) (simp_all add: render_def Let_def)

lemma render_single:
  "render ov prev [(s, u)] =
     (if (case prev of None \<Rightarrow> [] | Some c \<Rightarrow> get_overlap_text c ov) \<noteq> []
      then (case prev of None \<Rightarrow> [] | Some c \<Rightarrow> get_overlap_text c ov) @ s @ u else u)"
  by (simp add: render_def Let_def)

lemma render_groups_Nil_iff: "render_groups ov prev gs = [] \<longleftrightarrow> gs = []"
  by (cases gs) simp_all

lemma render_groups_snoc:
  "render_groups ov prev (gs @ [g]) =
     render_groups ov prev gs
     @ [render ov (if gs = [] then prev else Some (last (render_groups ov prev gs))) g]"
  by (induction gs arbitrary: prev) (simp_all add: render_groups_Nil_iff)

lemma packed_init: "packed ov [] ([], [])"
  by (simp add: packed_def)

lemma packedI:
  "cur \<noteq> [] \<Longrightarrow> concat gs = us \<Longrightarrow> [] \<notin> set gs \<Longrightarrow> gs \<noteq> [] \<Longrightarrow>
   chunks @ [cur] = render_groups ov None gs \<Longrightarrow> packed ov us (chunks, cur)"
  by (auto simp: packed_def)

lemma packedE:
  "packed ov us (chunks, cur) \<Longrightarrow> cur \<noteq> [] \<Longrightarrow>
   \<exists>gs. concat gs = us \<and> [] \<notin> set gs \<and> gs \<noteq> [] \<and> chunks @ [cur] = render_groups ov None gs"
  by (auto simp: packed_def)

lemma concat_nonempty: "gs \<noteq> [] \<Longrightarrow> [] \<notin> set gs \<Longrightarrow> concat gs \<noteq> []"
  by (cases gs) auto

lemma packed_empty_units: "packed ov [] st \<Longrightarrow> st = ([], [])"
  using concat_nonempty by (auto simp: packed_def)

lemma packed_empty_state: "packed ov us st \<Longrightarrow> snd st = [] \<Longrightarrow> us = [] \<and> st = ([], [])"
  by (auto simp: packed_def)

lemma packed_start: "u \<noteq> [] \<Longrightarrow> packed ov [(s, u)] ([], u)"
  by (rule packedI [where gs = "[[(s, u)]]"]) (simp_all add: render_single)

lemma packed_extend:
  assumes "packed ov us (chunks, cur)" "cur \<noteq> []"
  shows "packed ov (us @ [(s, u)]) (chunks, cur @ s @ u)"
proof -
  from packedE [OF assms] obtain gs where gs: "concat gs = us" "[] \<notin> set gs" "gs \<noteq> []"
    "chunks @ [cur] = render_groups ov None gs" by blast
  from gs(3) obtain gs0 g where g: "gs = gs0 @ [g]" by (metis rev_exhaust)
  with gs(2) have gne: "g \<noteq> []" by auto
  let ?prev = "if gs0 = [] then None else Some (last (render_groups ov None gs0))"
  from gs(4) have "chunks @ [cur] = render_groups ov None gs0 @ [render ov ?prev g]"
    unfolding g render_groups_snoc by simp
  then have c: "chunks = render_groups ov None gs0" and r: "cur = render ov ?prev g" by simp_all
  show ?thesis
  proof (rule packedI [where gs = "gs0 @ [g @ [(s, u)]]"])
    show "cur @ s @ u \<noteq> []" using assms(2) by simp
    show "concat (gs0 @ [g @ [(s, u)]]) = us @ [(s, u)]" using gs(1) g by simp
    show "[] \<notin> set (gs0 @ [g @ [(s, u)]])" using gs(2) g by simp
    show "gs0 @ [g @ [(s, u)]] \<noteq> []" by simp
    show "chunks @ [cur @ s @ u] = render_groups ov None (gs0 @ [g @ [(s, u)]])"
      unfolding render_groups_snoc using c r gne by (simp add: render_snoc)
  qed
qed

lemma packed_flush:
  assumes "packed ov us (chunks, cur)" "cur \<noteq> []" "u \<noteq> []"
  shows "packed ov (us @ [(s, u)])
           (chunks @ [cur],
            if get_overlap_text cur ov \<noteq> [] then get_overlap_text cur ov @ s @ u else u)"
proof -
  from packedE [OF assms(1,2)] obtain gs where gs: "concat gs = us" "[] \<notin> set gs" "gs \<noteq> []"
    "chunks @ [cur] = render_groups ov None gs" by blast
  let ?new = "if get_overlap_text cur ov \<noteq> [] then get_overlap_text cur ov @ s @ u else u"
  have l: "last (render_groups ov None gs) = cur" using gs(4) by (metis last_snoc)
  show ?thesis
  proof (rule packedI [where gs = "gs @ [[(s, u)]]"])
    show "?new \<noteq> []" using assms(3) by simp
    show "concat (gs @ [[(s, u)]]) = us @ [(s, u)]" using gs(1) by simp
    show "[] \<notin> set (gs @ [[(s, u)]])" using gs(2) by simp
    show "gs @ [[(s, u)]] \<noteq> []" by simp
    show "(chunks @ [cur]) @ [?new] = render_groups ov None (gs @ [[(s, u)]])"
      unfolding render_groups_snoc using gs(3,4) l by (simp add: render_single)
  qed
qed

lemma sentence_step_blank:
  "strip r = [] \<Longrightarrow> sentence_step cs ov (chunks, cur) r = (chunks, cur)"
  by (simp add: sentence_step_def)

lemma sentence_step_first:
  "strip r \<noteq> [] \<Longrightarrow> sentence_step cs ov (chunks, []) r = (chunks, strip r)"
  by (simp add: sentence_step_def Let_def)

lemma sentence_step_fits:
  "strip r \<noteq> [] \<Longrightarrow> cur \<noteq> [] \<Longrightarrow> int (length cur) + int (length (strip r)) + 1 \<le> cs \<Longrightarrow>
   sentence_step cs ov (chunks, cur) r = (chunks, cur @ [32] @ strip r)"
  by (simp add: sentence_step_def Let_def)

lemma sentence_step_flush:
  "strip r \<noteq> [] \<Longrightarrow> cur \<noteq> [] \<Longrightarrow> \<not> int (length cur) + int (length (strip r)) + 1 \<le> cs \<Longrightarrow>
   sentence_step cs ov (chunks, cur) r =
     (chunks @ [cur],
      if get_overlap_text cur ov \<noteq> [] then get_overlap_text cur ov @ [32] @ strip r
      else strip r)"
  by (simp add: sentence_step_def Let_def)

lemma sentence_step_packed:
  assumes "packed ov us st"
  shows "packed ov (us @ (if strip r = [] then [] else [([32], strip r)]))
           (sentence_step cs ov st r)"
proof -
  obtain chunks cur where st: "st = (chunks, cur)" by (cases st)
  show ?thesis
  proof (cases "strip r = []")
    case True
    with assms show ?thesis by (simp add: st sentence_step_blank)
  next
    case ne: False
    show ?thesis
    proof (cases "cur = []")
      case True
      with assms st have "us = []" "chunks = []" using packed_empty_state by auto
      with ne True show ?thesis by (simp add: st sentence_step_first packed_start)
    next
      case False
      show ?thesis
      proof (cases "int (length cur) + int (length (strip r)) + 1 \<le> cs")
        case True
        with ne False assms show ?thesis
          unfolding st using packed_extend [of ov us chunks cur "[32]" "strip r"]
          by (simp add: sentence_step_fits)
      next
        case nofit: False
        with ne False assms show ?thesis
          unfolding st using packed_flush [of ov us chunks cur "strip r" "[32]"]
          by (cases "get_overlap_text cur ov = []") (simp_all add: sentence_step_flush)
      qed
    qed
  qed
qed

lemma foldl_sentence_step_packed:
  "packed ov us st \<Longrightarrow>
   packed ov (us @ map (Pair [32]) (filter (\<lambda>s. s \<noteq> []) (map strip rs)))
     (foldl (sentence_step cs ov) st rs)"
proof (induction rs arbitrary: us st)
  case Nil
  then show ?case by simp
next
  case (Cons r rs)
  from sentence_step_packed [OF Cons.prems, of r cs]
  have "packed ov (us @ (if strip r = [] then [] else [([32], strip r)]))
          (sentence_step cs ov st r)" .
  from Cons.IH [OF this] show ?case by (cases "strip r = []") simp_all
qed

lemma strip_empty: "strip s = [] \<Longrightarrow> \<forall>c\<in>set s. isspace c"
proof -
  assume "strip s = []"
  then have "dropWhile isspace (rev (dropWhile isspace s)) = []" by (simp add: strip_def)
  then have "\<forall>c\<in>set (rev (dropWhile isspace s)). isspace c"
    by (simp add: dropWhile_eq_Nil_conv)
  then have a: "\<forall>c\<in>set (dropWhile isspace s). isspace c" by simp
  have "dropWhile isspace s = []"
  proof (rule ccontr)
    assume n: "dropWhile isspace s \<noteq> []"
    then have "\<not> isspace (hd (dropWhile isspace s))" by (rule hd_dropWhile)
    moreover from n have "hd (dropWhile isspace s) \<in> set (dropWhile isspace s)" by simp
    ultimately show False using a by blast
  qed
  then show ?thesis by (simp add: dropWhile_eq_Nil_conv)
qed

lemma nonblank_sentences_nonempty:
  assumes "p \<noteq> []" "\<not> isspace (hd p)"
  shows "nonblank_sentences p \<noteq> []"
proof
  assume "nonblank_sentences p = []"
  then have "\<forall>s\<in>set (split_sentences p). strip s = []"
    by (auto simp: nonblank_sentences_def filter_empty_conv)
  then have "\<forall>s\<in>set (split_sentences p). \<forall>c\<in>set s. isspace c"
    using strip_empty by blast
  then have "\<forall>c\<in>set (concat (split_sentences p)). isspace c" by auto
  then have "\<forall>c\<in>set p. isspace c"
    by (simp add: split_sentences_def concat_full_sentences concat_re_split)
  moreover from assms(1) have "hd p \<in> set p" by simp
  ultimately show False using assms(2) by blast
qed

lemma sentence_units_nonempty: "strip r \<noteq> [] \<Longrightarrow> sentence_units (strip r) \<noteq> []"
proof -
  assume ne: "strip r \<noteq> []"
  with trimmed_strip [of r] have "\<not> isspace (hd (strip r))" by (simp add: trimmed_def)
  with ne show ?thesis by (simp add: sentence_units_def nonblank_sentences_nonempty)
qed

lemma sentence_loop_packed:
  "packed ov (sentence_units p) (foldl (sentence_step cs ov) ([], []) (split_sentences p))"
  using foldl_sentence_step_packed [OF packed_init, where rs = "split_sentences p"]
  by (simp add: sentence_units_def nonblank_sentences_def)

lemma packed_final:
  assumes "packed ov us st"
  shows "\<exists>gs. concat gs = us \<and> [] \<notin> set gs
           \<and> (if snd st \<noteq> [] then fst st @ [snd st] else fst st) = render_groups ov None gs"
proof (cases "snd st = []")
  case True
  with assms have "us = []" "st = ([], [])" using packed_empty_state by auto
  then have "concat [] = us \<and> [] \<notin> set ([] :: unit_piece list list)
     \<and> (if snd st \<noteq> [] then fst st @ [snd st] else fst st) = render_groups ov None []"
    by simp
  then show ?thesis by blast
next
  case False
  with assms show ?thesis by (auto simp: packed_def)
qed


lemma paragraph_step_packed_first:
  assumes "strip r \<noteq> []"
  shows "packed ov (if cs < int (length (strip r)) then sentence_units (strip r)
                    else [([10, 10], strip r)])
           (paragraph_step cs ov ([], []) r)"
proof (cases "int 0 + int (length (strip r)) + 2 \<le> cs")
  case True
  with assms show ?thesis
    using paragraph_step_fits [of r "[]" cs ov "[]"] by (simp add: packed_start)
next
  case nofit: False
  show ?thesis
  proof (cases "cs < int (length (strip r))")
    case False
    with assms nofit show ?thesis by (simp add: paragraph_step_alone packed_start)
  next
    case True
    let ?st = "foldl (sentence_step cs ov) ([], []) (split_sentences (strip r))"
    have p: "packed ov (sentence_units (strip r)) ?st" by (rule sentence_loop_packed)
    have "sentence_units (strip r) \<noteq> []" using assms by (rule sentence_units_nonempty)
    with p have cur: "snd ?st \<noteq> []" by (auto simp: packed_def)
    then have sc: "split_long_paragraph (strip r) cs ov = fst ?st @ [snd ?st]"
      by (simp add: split_long_paragraph_def Let_def)
    have "paragraph_step cs ov ([], []) r = (fst ?st, snd ?st)"
      using assms nofit True by (simp add: paragraph_step_split sc)
    with p True show ?thesis by simp
  qed
qed

lemma paragraph_step_packed_next:
  assumes "packed ov us st" "us \<noteq> []"
  shows "packed ov (us @ (if strip r = [] then [] else [([10, 10], strip r)]))
           (paragraph_step cs ov st r)"
proof -
  obtain chunks cur where st: "st = (chunks, cur)" by (cases st)
  from assms st have cur: "cur \<noteq> []" by (auto simp: packed_def)
  show ?thesis
  proof (cases "strip r = []")
    case True
    with assms show ?thesis by (simp add: st paragraph_step_blank)
  next
    case ne: False
    show ?thesis
    proof (cases "int (length cur) + int (length (strip r)) + 2 \<le> cs")
      case True
      with ne cur assms(1) show ?thesis
        unfolding st using packed_extend [of ov us chunks cur "[10, 10]" "strip r"]
        by (simp add: paragraph_step_fits)
    next
      case False
      with ne cur assms(1) show ?thesis
        unfolding st using packed_flush [of ov us chunks cur "strip r" "[10, 10]"]
        by (cases "get_overlap_text cur ov = []") (simp_all add: paragraph_step_flush)
    qed
  qed
qed

lemma foldl_paragraph_step_packed_next:
  "packed ov us st \<Longrightarrow> us \<noteq> [] \<Longrightarrow>
   packed ov (us @ map (Pair [10, 10]) (filter (\<lambda>p. p \<noteq> []) (map strip rs)))
     (foldl (paragraph_step cs ov) st rs)"
proof (induction rs arbitrary: us st)
  case Nil
  then show ?case by simp
next
  case (Cons r rs)
  let ?us = "us @ (if strip r = [] then [] else [([10, 10], strip r)])"
  have "packed ov ?us (paragraph_step cs ov st r)"
    using Cons.prems by (rule paragraph_step_packed_next)
  moreover have "?us \<noteq> []" using Cons.prems(2) by simp
  ultimately have "packed ov (?us @ map (Pair [10, 10]) (filter (\<lambda>p. p \<noteq> []) (map strip rs)))
     (foldl (paragraph_step cs ov) (paragraph_step cs ov st r) rs)"
    by (rule Cons.IH)
  then show ?case by (cases "strip r = []") simp_all
qed

lemma foldl_paragraph_step_packed:
  "packed ov
     (case filter (\<lambda>p. p \<noteq> []) (map strip rs) of
        [] \<Rightarrow> []
      | p # ps \<Rightarrow> (if cs < int (length p) then sentence_units p else [([10, 10], p)])
                  @ map (Pair [10, 10]) ps)
     (foldl (paragraph_step cs ov) ([], []) rs)"
proof (induction rs)
  case Nil
  show ?case by (simp add: packed_init)
next
  case (Cons r rs)
  show ?case
  proof (cases "strip r = []")
    case True
    with Cons show ?thesis by (simp add: paragraph_step_blank)
  next
    case False
    let ?first = "if cs < int (length (strip r)) then sentence_units (strip r)
                  else [([10, 10], strip r)]"
    have 1: "packed ov ?first (paragraph_step cs ov ([], []) r)"
      using False by (rule paragraph_step_packed_first)
    have 2: "?first \<noteq> []" using False by (simp add: sentence_units_nonempty)
    from foldl_paragraph_step_packed_next [OF 1 2, where rs = rs and cs = cs]
    show ?thesis using False by simp
  qed
qed

lemma assemble_chunks_rendered:
  "\<exists>gs. concat gs = paragraph_units cs t \<and> [] \<notin> set gs
        \<and> assemble_chunks t cs ov = render_groups ov None gs"
  using packed_final [OF foldl_paragraph_step_packed [where rs = "split_nn [] t" and cs = cs and ov = ov]]
  by (simp add: assemble_chunks_def Let_def paragraph_units_def nonblank_paragraphs_def)

section \<open>Overlap fragments between consecutive chunks, and reconstruction\<close>











text \<open>
  C1 (amended). For all texts, the returned chunks are the assembled chunks of at least 50
  characters, in order, and none of them is empty. The chunks as assembled before that
  filter, taken in order and without the inserted overlap fragments, are exactly the units
  of the text: the units fall into consecutive non-empty groups, one for each assembled
  chunk, and each chunk is the units of its group joined by their separators, preceded,
  when the overlap fragment of the previous chunk is not empty, by that fragment and the
  separator of the first unit.
\<close>

theorem chunk_text_reconstruction:
  "chunk_text t cs ov = filter (\<lambda>c. 50 \<le> length c) (assemble_chunks t cs ov)
   \<and> (\<forall>c\<in>set (chunk_text t cs ov). c \<noteq> [])
   \<and> (\<exists>groups. concat groups = paragraph_units cs t \<and> [] \<notin> set groups
         \<and> assemble_chunks t cs ov = render_groups ov None groups)"
proof (intro conjI ballI)
  show "chunk_text t cs ov = filter (\<lambda>c. 50 \<le> length c) (assemble_chunks t cs ov)"
    by (simp add: chunk_text_def)
next
  fix c assume "c \<in> set (chunk_text t cs ov)"
  then have "50 \<le> length c" by (simp add: chunk_text_def)
  then show "c \<noteq> []" by auto
next
  show "\<exists>groups. concat groups = paragraph_units cs t \<and> [] \<notin> set groups
         \<and> assemble_chunks t cs ov = render_groups ov None groups"
    by (rule assemble_chunks_rendered)
qed

section \<open>Examples\<close>




lemma strip_replicate: "\<not> isspace c \<Longrightarrow> strip (replicate n c) = replicate n c"
  by (rule strip_trimmed) (rule trimmed_replicate)

lemma full_sentences_three: "full_sentences [a, b, c] = [a @ b, c]"
proof -
  have "join_pairs [a, b, c] (Suc (Suc 0)) = []" by (subst join_pairs.simps) simp
  then have "join_pairs [a, b, c] 0 = [a @ b]" by (subst join_pairs.simps) simp
  then show ?thesis by (simp add: full_sentences_def)
qed



lemma match_delim_no_mark: "\<not> is_punct c \<Longrightarrow> match_delim (c # cs) = None"
  by (simp add: match_delim_def)

lemma re_split_skip:
  "\<forall>c\<in>set xs. \<not> is_punct c \<Longrightarrow> re_split acc (xs @ rest) = re_split (acc @ xs) rest"
  by (induction xs arbitrary: acc) (simp_all add: match_delim_no_mark)

lemma re_split_plain: "\<forall>c\<in>set xs. \<not> is_punct c \<Longrightarrow> re_split acc xs = [acc @ xs]"
  using re_split_skip [of xs acc "[]"] by simp

lemma strip_trailing:
  assumes "trimmed x" "x \<noteq> []" "\<forall>c\<in>set w. isspace c"
  shows "strip (x @ w) = x"
proof -
  from assms(1,2) have h: "\<not> isspace (hd x)" and l: "\<not> isspace (last x)"
    by (simp_all add: trimmed_def)
  from assms(2) h have "dropWhile isspace (x @ w) = x @ w" by (cases x) auto
  moreover have "dropWhile isspace (rev w @ rev x) = dropWhile isspace (rev x)"
    by (rule dropWhile_append2) (simp add: assms(3))
  moreover from assms(2) l have "dropWhile isspace (rev x) = rev x"
    by (cases "rev x") (auto simp: hd_rev)
  ultimately show ?thesis by (simp add: strip_def)
qed

lemma two_sentences_assembled:
  "assemble_chunks (replicate 60 97 @ 46 # 32 # 32 # replicate 60 98) 70 100
     = [replicate 60 97 @ [46], replicate 60 97 @ 46 # 32 # replicate 60 98]"
  "nonblank_paragraphs (replicate 60 97 @ 46 # 32 # 32 # replicate 60 98)
     = [replicate 60 97 @ 46 # 32 # 32 # replicate 60 98]"
  "nonblank_sentences (replicate 60 97 @ 46 # 32 # 32 # replicate 60 98)
     = [replicate 60 97 @ [46], replicate 60 98]"
proof -
  let ?a = "replicate 60 (97::nat)" and ?b = "replicate 60 (98::nat)"
  let ?p = "?a @ 46 # 32 # 32 # ?b"
  have tp: "trimmed ?p" by (simp add: trimmed_def isspace_def)
  then have sp: "strip ?p = ?p" by (rule strip_trimmed)
  have nn: "split_nn [] ?p = [?p]" using split_nn_plain [of ?p "[]"] by simp
  have m: "match_delim (46 # 32 # 32 # ?b) = Some ([46, 32, 32], ?b)"
    by (simp add: match_delim_def is_punct_def isspace_def)
  have "re_split [] ?p = re_split ([] @ ?a) (46 # 32 # 32 # ?b)"
    by (rule re_split_skip) (simp add: is_punct_def)
  also have "\<dots> = ?a # [46, 32, 32] # re_split [] ?b" by (simp add: m)
  also have "re_split [] ?b = [[] @ ?b]" by (rule re_split_plain) (simp add: is_punct_def)
  finally have ss: "split_sentences ?p = [?a @ [46, 32, 32], ?b]"
    by (simp add: split_sentences_def full_sentences_three)
  have "trimmed (?a @ [46])" by (simp add: trimmed_def isspace_def)
  then have "strip ((?a @ [46]) @ [32, 32]) = ?a @ [46]"
    by (rule strip_trailing) (simp_all add: isspace_def)
  then have s1: "strip (?a @ [46, 32, 32]) = ?a @ [46]" by simp
  have s2: "strip ?b = ?b" by (simp add: strip_replicate isspace_def)
  have o: "get_overlap_text (?a @ [46]) 100 = ?a @ [46]" by (simp add: get_overlap_text_def)
  have 1: "sentence_step 70 100 ([], []) (?a @ [46, 32, 32]) = ([], ?a @ [46])"
    using sentence_step_first [of "?a @ [46, 32, 32]" 70 100 "[]"] by (simp add: s1)
  have 2: "sentence_step 70 100 ([], ?a @ [46]) ?b = ([?a @ [46]], ?a @ 46 # 32 # ?b)"
    using sentence_step_flush [of ?b "?a @ [46]" 70 100 "[]"] by (simp add: s2 o)
  have sc: "split_long_paragraph ?p 70 100 = [?a @ [46], ?a @ 46 # 32 # ?b]"
    by (simp add: split_long_paragraph_def ss 1 2)
  have "paragraph_step 70 100 ([], []) ?p = ([?a @ [46]], ?a @ 46 # 32 # ?b)"
    using paragraph_step_split [of ?p 70 100 "[]"] by (simp add: sp sc)
  then show "assemble_chunks ?p 70 100 = [?a @ [46], ?a @ 46 # 32 # ?b]"
    by (simp add: assemble_chunks_def nn)
  show "nonblank_paragraphs ?p = [?p]" by (simp add: nonblank_paragraphs_def nn sp)
  show "nonblank_sentences ?p = [?a @ [46], ?b]"
    by (simp add: nonblank_sentences_def ss s1 s2)
qed

text \<open>
  The text \<open>hi\<close> has one non-blank paragraph, and no chunk is returned for it: the chunk
  \<open>hi\<close> is assembled and then discarded by the filter. And a paragraph of two sentences
  of 60 and 61 characters separated by two spaces, with \<open>chunk_size = 70\<close> and
  \<open>overlap = 100\<close>, is returned as its first sentence and, after the overlap, its second
  sentence joined by one space: the two spaces of the paragraph are in no returned chunk.
\<close>

theorem chunk_text_reconstruction_counterexample:
  "nonblank_paragraphs [104, 105] = [[104, 105]] \<and> chunk_text [104, 105] 500 100 = []
   \<and> nonblank_paragraphs (replicate 60 97 @ 46 # 32 # 32 # replicate 60 98)
       = [replicate 60 97 @ 46 # 32 # 32 # replicate 60 98]
   \<and> chunk_text (replicate 60 97 @ 46 # 32 # 32 # replicate 60 98) 70 100
       = [replicate 60 97 @ [46], replicate 60 97 @ 46 # 32 # replicate 60 98]"
proof -
  have s: "strip [104, 105] = [104, 105]" by (simp add: strip_def isspace_def)
  have "assemble_chunks [104, 105] 500 100 = [[104, 105]]"
    using assemble_one [of "[104, 105]" 500 100] by (simp add: s)
  then have "nonblank_paragraphs [104, 105] = [[104, 105]]
      \<and> chunk_text [104, 105] 500 100 = []"
    by (simp add: chunk_text_def nonblank_paragraphs_def s)
  then show ?thesis by (simp add: chunk_text_def two_sentences_assembled)
qed

theorem chunk_text_reconstruction_witness:
  "paragraph_units 70 (replicate 60 97 @ 46 # 32 # 32 # replicate 60 98)
     = [([32], replicate 60 97 @ [46]), ([32], replicate 60 98)]
   \<and> chunk_text (replicate 60 97 @ 46 # 32 # 32 # replicate 60 98) 70 100
       = [replicate 60 97 @ [46], replicate 60 97 @ 46 # 32 # replicate 60 98]
   \<and> replicate 60 97 @ [46] \<noteq> ([] :: pystr)
   \<and> (\<exists>groups. concat groups = [([32], replicate 60 97 @ [46]), ([32], replicate 60 98)]
         \<and> [] \<notin> set groups
         \<and> [replicate 60 97 @ [46], replicate 60 97 @ 46 # 32 # replicate 60 98]
             = render_groups 100 None groups)"
proof -
  have u: "paragraph_units 70 (replicate 60 97 @ 46 # 32 # 32 # replicate 60 98)
     = [([32], replicate 60 97 @ [46]), ([32], replicate 60 98)]"
    by (simp add: paragraph_units_def sentence_units_def two_sentences_assembled)
  from chunk_text_reconstruction [of "replicate 60 97 @ 46 # 32 # 32 # replicate 60 98" 70 100]
  have "chunk_text (replicate 60 97 @ 46 # 32 # 32 # replicate 60 98) 70 100
       = [replicate 60 97 @ [46], replicate 60 97 @ 46 # 32 # replicate 60 98]"
    and "\<exists>groups. concat groups = [([32], replicate 60 97 @ [46]), ([32], replicate 60 98)]
         \<and> [] \<notin> set groups
         \<and> [replicate 60 97 @ [46], replicate 60 97 @ 46 # 32 # replicate 60 98]
             = render_groups 100 None groups"
    unfolding u two_sentences_assembled by simp_all
  with u show ?thesis by simp
qed

end
